theory Spec2Isabelle
  imports Main "HOL-Library.AList" "HOL-Library.Multiset"
begin

section \<open>Strings\<close>

text \<open>
  Paths and patterns are modelled as ASCII strings (\<open>char list\<close>), so \<open>length\<close> is the
  source's \<^verbatim>\<open>String.prototype.length\<close> and \<open>toUpperCase\<close> maps the letters a-z
  and leaves every other character alone.
\<close>

definition upperChar :: "char \<Rightarrow> char" where
  "upperChar c =
     (case map_of (zip ''abcdefghijklmnopqrstuvwxyz'' ''ABCDEFGHIJKLMNOPQRSTUVWXYZ'') c of
        Some u \<Rightarrow> u
      | None \<Rightarrow> c)"

definition toUpperCase :: "string \<Rightarrow> string" where
  "toUpperCase s = map upperChar s"

definition isSpace :: "char \<Rightarrow> bool" where
  "isSpace c = (c \<in> {CHR '' '', CHR 0x09, CHR 0x0A, CHR 0x0B, CHR 0x0C, CHR 0x0D})"

definition trim :: "string \<Rightarrow> string" where
  "trim s = rev (dropWhile isSpace (rev (dropWhile isSpace s)))"

text \<open>\<^verbatim>\<open>s.startsWith(p)\<close>\<close>

fun startsWith :: "string \<Rightarrow> string \<Rightarrow> bool" where
  "startsWith s [] = True"
| "startsWith [] (p # ps) = False"
| "startsWith (c # cs) (p # ps) = (c = p \<and> startsWith cs ps)"

text \<open>\<^verbatim>\<open>s.includes(e)\<close>: \<open>e\<close> occurs in \<open>s\<close> as a contiguous substring.\<close>

fun includesStr :: "string \<Rightarrow> string \<Rightarrow> bool" where
  "includesStr [] e = (e = [])"
| "includesStr (c # cs) e = (startsWith (c # cs) e \<or> includesStr cs e)"

text \<open>\<^verbatim>\<open>s.split(sep)\<close> and \<^verbatim>\<open>parts.join(sep)\<close> for a one-character separator.\<close>

fun split :: "char \<Rightarrow> string \<Rightarrow> string list" where
  "split sep [] = [[]]"
| "split sep (c # cs) =
     (if c = sep then [] # split sep cs
      else (case split sep cs of [] \<Rightarrow> [[c]] | w # ws \<Rightarrow> (c # w) # ws))"

fun join :: "char \<Rightarrow> string list \<Rightarrow> string" where
  "join sep [] = []"
| "join sep [w] = w"
| "join sep (w # v # ws) = w @ sep # join sep (v # ws)"

text \<open>
  \<^verbatim>\<open>
  function cleanupPath(file: string) {
      return file.startsWith("files/")
          ? file.split("/").slice(1).join("/")
          : file;
  }
  \<close>
\<close>

definition cleanupPath :: "string \<Rightarrow> string" where
  "cleanupPath file =
     (if startsWith file ''files/'' then join (CHR ''/'') (drop 1 (split (CHR ''/'') file))
      else file)"

section \<open>Input records\<close>

text \<open>
  \<^verbatim>\<open>MediaDCFile\<close> and \<^verbatim>\<open>MediaDCGroup\<close> of \<^verbatim>\<open>types.ts\<close>. The optional
  display field \<^verbatim>\<open>size\<close> (the humanized byte count, only printed) is left out. File
  sizes are the integers of the export.
\<close>

record MediaDCFile =
  fileid :: int
  filename :: string
  filepath :: string
  filesize :: int

record MediaDCGroup =
  task_id :: int
  group_id :: int
  files :: "MediaDCFile list"

section \<open>The rule lists\<close>

text \<open>
  \<^verbatim>\<open>[...new Set(args.exclude.map((e) => e.trim().toUpperCase()))]\<close>: a \<^verbatim>\<open>Set\<close> keeps
  the first occurrence of each element, in insertion order.
\<close>

fun uniq :: "'a list \<Rightarrow> 'a list" where
  "uniq [] = []"
| "uniq (x # xs) = x # uniq (removeAll x xs)"

definition normalizeRules :: "string list \<Rightarrow> string list" where
  "normalizeRules pats = uniq (map (\<lambda>e. toUpperCase (trim e)) pats)"

text \<open>\<^verbatim>\<open>rules.some((e) => file.filepath.toUpperCase().includes(e))\<close>\<close>

definition matchesAny :: "string list \<Rightarrow> string \<Rightarrow> bool" where
  "matchesAny rules path = list_ex (\<lambda>e. includesStr (toUpperCase path) e) rules"

section \<open>Sorting a group\<close>

text \<open>
  The comparator handed to \<^verbatim>\<open>sort\<close>:
  \<^verbatim>\<open>
  if (a.filesize > b.filesize) return -1;
  else if (a.filesize < b.filesize) return 1;
  else return a.filepath.length - b.filepath.length;
  \<close>
\<close>

definition compareFiles :: "MediaDCFile \<Rightarrow> MediaDCFile \<Rightarrow> int" where
  "compareFiles a b =
     (if filesize a > filesize b then - 1
      else if filesize a < filesize b then 1
      else int (length (filepath a)) - int (length (filepath b)))"

text \<open>
  \<^verbatim>\<open>Array.prototype.sort\<close> is stable, and for a consistent comparator its result is
  the one stable ordering of the input; a stable insertion sort computes it.
\<close>

fun insertBy :: "('a \<Rightarrow> 'a \<Rightarrow> int) \<Rightarrow> 'a \<Rightarrow> 'a list \<Rightarrow> 'a list" where
  "insertBy cmp x [] = [x]"
| "insertBy cmp x (y # ys) = (if cmp x y \<le> 0 then x # y # ys else y # insertBy cmp x ys)"

fun sortBy :: "('a \<Rightarrow> 'a \<Rightarrow> int) \<Rightarrow> 'a list \<Rightarrow> 'a list" where
  "sortBy cmp [] = []"
| "sortBy cmp (x # xs) = insertBy cmp x (sortBy cmp xs)"

text \<open>
  The order the comparator stands for: \<open>a\<close> may come before \<open>b\<close> when it is larger,
  or as large with a path that is not longer.
\<close>

definition sortedBefore :: "MediaDCFile \<Rightarrow> MediaDCFile \<Rightarrow> bool" where
  "sortedBefore a b \<longleftrightarrow>
     filesize a > filesize b
     \<or> (filesize a = filesize b \<and> length (filepath a) \<le> length (filepath b))"

section \<open>The metadata cache\<close>

text \<open>
  \<^verbatim>\<open>Record<string, FileStat | false>\<close>: an object keyed by \<^verbatim>\<open>file.filepath\<close>, kept
  as an association list in insertion order. \<open>'st\<close> is the client library's
  \<^verbatim>\<open>FileStat\<close>. Keys are assumed not to be property names of \<^verbatim>\<open>Object.prototype\<close>.
\<close>

datatype 'st file_info = IsFalse | FileStat 'st

type_synonym 'st cache = "(string \<times> 'st file_info) list"

text \<open>\<^verbatim>\<open>key in fileInfo\<close>\<close>

definition hasKey :: "('k \<times> 'v) list \<Rightarrow> 'k \<Rightarrow> bool" where
  "hasKey m k = (map_of m k \<noteq> None)"

text \<open>The truthiness of \<^verbatim>\<open>fileInfo[f["filepath"]]\<close>.\<close>

definition isLive :: "'st cache \<Rightarrow> string \<Rightarrow> bool" where
  "isLive info path =
     (case map_of info path of Some (FileStat _) \<Rightarrow> True | _ \<Rightarrow> False)"

text \<open>
  \<^verbatim>\<open>group.files.filter((f) => fileInfo[f["filepath"]]).map(...).sort(...)\<close>
\<close>

definition liveFiles :: "'st cache \<Rightarrow> MediaDCGroup \<Rightarrow> MediaDCFile list" where
  "liveFiles info g =
     sortBy compareFiles (filter (\<lambda>f. isLive info (filepath f)) (files g))"

section \<open>The selector\<close>

datatype reason = ExcludedDupe | Include | Smaller | ExcludedLast

datatype verdict = Keep | Delete reason

fun isDelete :: "verdict \<Rightarrow> bool" where
  "isDelete Keep = False"
| "isDelete (Delete r) = True"

datatype error = SanityCheck | TypeError

text \<open>
  The loop state: \<^verbatim>\<open>toDelete\<close> is a \<^verbatim>\<open>Map<number, string>\<close> from file id to reason
  (an association list in insertion order), with the two running variables.
\<close>

record walk_state =
  toDelete :: "(int \<times> reason) list"
  firstNonIncludedWithSameSize :: nat
  keptOne :: bool

text \<open>
  One iteration of \<^verbatim>\<open>for (const [i, file] of files.entries())\<close>; \<open>nxt\<close> is
  \<^verbatim>\<open>files[i + 1]\<close>, \<open>None\<close> when \<open>file\<close> is the last one.
\<close>

definition walkStep ::
  "string list \<Rightarrow> string list \<Rightarrow> nat \<Rightarrow> MediaDCFile \<Rightarrow> MediaDCFile option
     \<Rightarrow> walk_state \<Rightarrow> walk_state" where
  "walkStep exclude include i file nxt s =
     (if matchesAny exclude (filepath file) then
        (if keptOne s
         then s\<lparr>toDelete := AList.update (fileid file) ExcludedDupe (toDelete s)\<rparr>
         else s\<lparr>keptOne := True\<rparr>)
      else if matchesAny include (filepath file) then
        (let s' =
           (if i = firstNonIncludedWithSameSize s
                 \<and> (case nxt of None \<Rightarrow> False | Some g \<Rightarrow> filesize file = filesize g)
            then s\<lparr>firstNonIncludedWithSameSize := firstNonIncludedWithSameSize s + 1\<rparr>
            else s)
         in s'\<lparr>toDelete := AList.update (fileid file) Include (toDelete s')\<rparr>)
      else if i > firstNonIncludedWithSameSize s
        then s\<lparr>toDelete := AList.update (fileid file) Smaller (toDelete s)\<rparr>
        else s\<lparr>keptOne := True\<rparr>)"

fun walk ::
  "string list \<Rightarrow> string list \<Rightarrow> nat \<Rightarrow> MediaDCFile list \<Rightarrow> walk_state \<Rightarrow> walk_state" where
  "walk exclude include i [] s = s"
| "walk exclude include i (file # rest) s =
     walk exclude include (Suc i) rest
       (walkStep exclude include i file (case rest of [] \<Rightarrow> None | g # _ \<Rightarrow> Some g) s)"

definition initialWalk :: walk_state where
  "initialWalk = \<lparr>toDelete = [], firstNonIncludedWithSameSize = 0, keptOne = False\<rparr>"

text \<open>\<^verbatim>\<open>const toDelLen = () => [...toDelete.keys()].length\<close>\<close>

definition toDelLen :: "(int \<times> reason) list \<Rightarrow> nat" where
  "toDelLen d = length (map fst d)"

text \<open>\<^verbatim>\<open>files.findIndex(p)\<close>: \<open>None\<close> stands for the result -1.\<close>

fun findIndex :: "('a \<Rightarrow> bool) \<Rightarrow> 'a list \<Rightarrow> nat option" where
  "findIndex p [] = None"
| "findIndex p (x # xs) =
     (if p x then Some 0 else (case findIndex p xs of None \<Rightarrow> None | Some k \<Rightarrow> Some (Suc k)))"

text \<open>\<^verbatim>\<open>files[k]\<close>: \<open>None\<close> stands for \<^verbatim>\<open>undefined\<close>.\<close>

definition at :: "'a list \<Rightarrow> nat \<Rightarrow> 'a option" where
  "at xs k = (if k < length xs then Some (xs ! k) else None)"

text \<open>
  \<^verbatim>\<open>
  const firstNonIncluded = files.findIndex(
      (f) => !include.some((i) => f.filepath.toUpperCase().includes(i)));
  const file = files[firstNonIncluded] || files[firstNonIncludedWithSameSize] || files[0];
  \<close>
\<close>

definition fallbackKeeper ::
  "string list \<Rightarrow> MediaDCFile list \<Rightarrow> nat \<Rightarrow> MediaDCFile option" where
  "fallbackKeeper include fs fnis =
     (case (case findIndex (\<lambda>f. \<not> matchesAny include (filepath f)) fs of
              None \<Rightarrow> None | Some k \<Rightarrow> at fs k) of
        Some f \<Rightarrow> Some f
      | None \<Rightarrow> (case at fs fnis of Some f \<Rightarrow> Some f | None \<Rightarrow> at fs 0))"

text \<open>
  The body of the group loop from \<^verbatim>\<open>const toDelete = new Map()\<close> to the sanity check,
  on the sorted live files. \<open>Inl SanityCheck\<close> is the thrown
  \<^verbatim>\<open>Error("Sanity check. Should never happen")\<close>; \<open>Inl TypeError\<close> is reading
  \<^verbatim>\<open>file.fileid\<close> of \<^verbatim>\<open>undefined\<close>.
\<close>

definition selectGroup ::
  "string list \<Rightarrow> string list \<Rightarrow> MediaDCFile list \<Rightarrow> error + (int \<times> reason) list" where
  "selectGroup exclude include fs =
     (let s = walk exclude include 0 fs initialWalk;
          d1 = toDelete s
      in case (if length fs = toDelLen d1
               then (case fallbackKeeper include fs (firstNonIncludedWithSameSize s) of
                       None \<Rightarrow> Inl TypeError
                     | Some file \<Rightarrow> Inr (AList.delete (fileid file) d1))
               else Inr d1) of
           Inl e \<Rightarrow> Inl e
         | Inr d2 \<Rightarrow>
             (let d3 = (if toDelLen d2 = 0
                        then fold (\<lambda>file d. AList.update (fileid file) ExcludedLast d) (drop 1 fs) d2
                        else d2)
              in if int (toDelLen d3) \<noteq> int (length fs) - 1 then Inl SanityCheck else Inr d3))"

text \<open>
  The verdict the group summary prints for a file:
  \<^verbatim>\<open>toDelete.has(file.fileid) ? `deleted (${toDelete.get(file.fileid)})` : "kept"\<close>
\<close>

definition verdictOf :: "(int \<times> reason) list \<Rightarrow> MediaDCFile \<Rightarrow> verdict" where
  "verdictOf d file = (case map_of d (fileid file) of None \<Rightarrow> Keep | Some r \<Rightarrow> Delete r)"

text \<open>
  The invariant of the walk after \<open>i\<close> iterations over files with the ids \<open>ids\<close>: the
  running index has not passed \<open>i\<close>, the marks are ids of processed files, and exactly
  the files before a keeper was found are all marked.
\<close>

definition walkInv :: "nat \<Rightarrow> int list \<Rightarrow> walk_state \<Rightarrow> bool" where
  "walkInv i ids s \<longleftrightarrow>
     firstNonIncludedWithSameSize s \<le> i \<and> distinct (map fst (toDelete s))
     \<and> set (map fst (toDelete s)) \<subseteq> set ids
     \<and> (if keptOne s
         then firstNonIncludedWithSameSize s < i \<and> Suc (length (toDelete s)) = length ids
         else length (toDelete s) = length ids)"

section \<open>The deletion pass\<close>

text \<open>
  The counters of \<^verbatim>\<open>main\<close> with a log of the remote delete calls: the path handed to
  \<^verbatim>\<open>webdavClient.deleteFile\<close> and whether the call returned (\<open>True\<close>) or threw, and
  the paths reported by \<^verbatim>\<open>console.error\<close>.
\<close>

record exec_state =
  deleted :: nat
  deletedSize :: int
  deleteCalls :: "(string \<times> bool) list"
  deleteErrors :: "string list"

definition initialExec :: exec_state where
  "initialExec = \<lparr>deleted = 0, deletedSize = 0, deleteCalls = [], deleteErrors = []\<rparr>"

text \<open>
  \<^verbatim>\<open>
  async function remove(file: MediaDCFile): Promise<void> {
      try {
          const filePath = cleanupPath(file.filepath);
          if (!args.dryRun) { await webdavClient.deleteFile(filePath); }
      } catch (error) { console.error(..., error); }
  }
  \<close>
  The remote store is the function \<open>deleteFile\<close>: \<open>False\<close> when the call throws.
\<close>

definition remove :: "bool \<Rightarrow> (string \<Rightarrow> bool) \<Rightarrow> MediaDCFile \<Rightarrow> exec_state \<Rightarrow> exec_state" where
  "remove dryRun deleteFile file s =
     (let filePath = cleanupPath (filepath file)
      in if \<not> dryRun then
           (if deleteFile filePath
            then s\<lparr>deleteCalls := deleteCalls s @ [(filePath, True)]\<rparr>
            else s\<lparr>deleteCalls := deleteCalls s @ [(filePath, False)],
                   deleteErrors := deleteErrors s @ [filepath file]\<rparr>)
         else s)"

text \<open>
  \<^verbatim>\<open>
  for (const file of files) {
      if (!toDelete.has(file.fileid)) continue;
      deleted++;
      deletedSize += file.filesize;
      await remove(file);
  }
  \<close>
\<close>

fun deleteMarked ::
  "bool \<Rightarrow> (string \<Rightarrow> bool) \<Rightarrow> (int \<times> reason) list \<Rightarrow> MediaDCFile list
     \<Rightarrow> exec_state \<Rightarrow> exec_state" where
  "deleteMarked dryRun deleteFile d [] s = s"
| "deleteMarked dryRun deleteFile d (file # rest) s =
     (if \<not> hasKey d (fileid file) then deleteMarked dryRun deleteFile d rest s
      else deleteMarked dryRun deleteFile d rest
             (remove dryRun deleteFile file
                (s\<lparr>deleted := deleted s + 1, deletedSize := deletedSize s + filesize file\<rparr>)))"

text \<open>One iteration of \<^verbatim>\<open>for (const group of dc.Results)\<close>.\<close>

definition processGroup ::
  "bool \<Rightarrow> (string \<Rightarrow> bool) \<Rightarrow> string list \<Rightarrow> string list \<Rightarrow> 'st cache \<Rightarrow> MediaDCGroup
     \<Rightarrow> exec_state \<Rightarrow> error + exec_state" where
  "processGroup dryRun deleteFile exclude include info g s =
     (let fs = liveFiles info g
      in if length fs = 0 then Inr s
         else if length fs = 1 then Inr s
         else (case selectGroup exclude include fs of
                 Inl e \<Rightarrow> Inl e
               | Inr d \<Rightarrow> Inr (deleteMarked dryRun deleteFile d fs s)))"

fun processGroups ::
  "bool \<Rightarrow> (string \<Rightarrow> bool) \<Rightarrow> string list \<Rightarrow> string list \<Rightarrow> 'st cache
     \<Rightarrow> MediaDCGroup list \<Rightarrow> exec_state \<Rightarrow> error + exec_state" where
  "processGroups dryRun deleteFile exclude include info [] s = Inr s"
| "processGroups dryRun deleteFile exclude include info (g # gs) s =
     (case processGroup dryRun deleteFile exclude include info g s of
        Inl e \<Rightarrow> Inl e
      | Inr s' \<Rightarrow> processGroups dryRun deleteFile exclude include info gs s')"

section \<open>The metadata resolver\<close>

text \<open>
  What the resolver does to the outside: \<open>Stat p q\<close> is the call
  \<^verbatim>\<open>webdavClient.stat(q)\<close> made for the file with \<^verbatim>\<open>filepath\<close> \<open>p\<close>, and
  \<open>Save c\<close> is \<^verbatim>\<open>writeFile(cachePath, JSON.stringify({ ...fileInfo }))\<close> with the
  snapshot \<open>c\<close>.
\<close>

datatype 'st event = Stat string string | Save "'st cache"

fun isStat :: "'st event \<Rightarrow> bool" where
  "isStat (Stat p q) = True"
| "isStat (Save c) = False"

fun isSave :: "'st event \<Rightarrow> bool" where
  "isSave (Stat p q) = False"
| "isSave (Save c) = True"

text \<open>
  The state of \<^verbatim>\<open>getFilesInfo\<close>: the object \<^verbatim>\<open>fileInfo\<close>, the counter \<^verbatim>\<open>i\<close>
  (\<open>processed\<close>), the events so far and the content of the cache file, \<open>None\<close> when
  the file does not exist.
\<close>

record 'st resolver_state =
  fileInfo :: "'st cache"
  processed :: nat
  events :: "'st event list"
  cacheFile :: "'st cache option"

text \<open>
  \<^verbatim>\<open>
  const saveCacheData = async () => {
      if (!args.cacheInfo) return;
      return writeFile(cachePath, JSON.stringify({ ...fileInfo }), "utf8");
  };
  \<close>
\<close>

definition saveCacheData :: "bool \<Rightarrow> 'st resolver_state \<Rightarrow> 'st resolver_state" where
  "saveCacheData cacheInfo s =
     (if \<not> cacheInfo then s
      else s\<lparr>cacheFile := Some (fileInfo s), events := events s @ [Save (fileInfo s)]\<rparr>)"

text \<open>
  The body of the inner loop of \<^verbatim>\<open>getFilesInfo\<close>, from \<^verbatim>\<open>i++\<close> on. The remote
  store is the function \<open>stat\<close>: \<open>None\<close> when the call throws.
\<close>

definition resolveFile ::
  "bool \<Rightarrow> (string \<Rightarrow> 'st option) \<Rightarrow> MediaDCFile \<Rightarrow> 'st resolver_state \<Rightarrow> 'st resolver_state" where
  "resolveFile cacheInfo stat file s0 =
     (let s = s0\<lparr>processed := processed s0 + 1\<rparr>
      in if hasKey (fileInfo s) (filepath file) then s
         else
           (let s1 = (if processed s mod 500 = 0 then saveCacheData cacheInfo s else s)
            in if startsWith (filepath file) ''files_trashbin''
               then s1\<lparr>fileInfo := AList.update (filepath file) IsFalse (fileInfo s1)\<rparr>
               else
                 (let filePath = cleanupPath (filepath file);
                      s2 = s1\<lparr>events := events s1 @ [Stat (filepath file) filePath]\<rparr>
                  in case stat filePath of
                       Some info \<Rightarrow>
                         s2\<lparr>fileInfo := AList.update (filepath file) (FileStat info) (fileInfo s2)\<rparr>
                     | None \<Rightarrow>
                         s2\<lparr>fileInfo := AList.update (filepath file) IsFalse (fileInfo s2)\<rparr>)))"

text \<open>\<^verbatim>\<open>for (const group of groups) { for (const file of group.files) { ... } }\<close>\<close>

definition resolveFiles ::
  "bool \<Rightarrow> (string \<Rightarrow> 'st option) \<Rightarrow> MediaDCFile list \<Rightarrow> 'st resolver_state
     \<Rightarrow> 'st resolver_state" where
  "resolveFiles cacheInfo stat fs s = fold (resolveFile cacheInfo stat) fs s"

definition resolveGroups ::
  "bool \<Rightarrow> (string \<Rightarrow> 'st option) \<Rightarrow> MediaDCGroup list \<Rightarrow> 'st resolver_state
     \<Rightarrow> 'st resolver_state" where
  "resolveGroups cacheInfo stat gs s = fold (\<lambda>g. resolveFiles cacheInfo stat (files g)) gs s"

text \<open>
  \<^verbatim>\<open>
  let fileInfo = {};
  if (args.cacheInfo && existsSync(cachePath)) {
      const cacheData = JSON.parse(await readFile(cachePath, "utf8"));
      fileInfo = cacheData || {};
  }
  \<close>
\<close>

definition loadCache :: "bool \<Rightarrow> 'st cache option \<Rightarrow> 'st cache" where
  "loadCache cacheInfo cacheFile0 =
     (if cacheInfo then (case cacheFile0 of None \<Rightarrow> [] | Some c \<Rightarrow> c) else [])"

text \<open>
  \<^verbatim>\<open>getFilesInfo\<close>: load the cache, walk the groups, save. The returned
  \<^verbatim>\<open>fileInfo\<close> is the field of the final state.
\<close>

definition getFilesInfo ::
  "bool \<Rightarrow> (string \<Rightarrow> 'st option) \<Rightarrow> 'st cache option \<Rightarrow> MediaDCGroup list
     \<Rightarrow> 'st resolver_state" where
  "getFilesInfo cacheInfo stat cacheFile0 groups =
     (let s0 = \<lparr>fileInfo = loadCache cacheInfo cacheFile0, processed = 0, events = [],
                 cacheFile = cacheFile0\<rparr>
      in saveCacheData cacheInfo (resolveGroups cacheInfo stat groups s0))"

section \<open>The whole run\<close>

text \<open>
  \<^verbatim>\<open>main\<close> after the input has been parsed: resolve, process every group, and at the
  end remove the cache file unless this was a dry run. The result is the outcome of the
  group loop (\<open>Inl\<close> when the sanity check threw) and the cache file left on disk.
\<close>

definition main ::
  "bool \<Rightarrow> bool \<Rightarrow> string list \<Rightarrow> string list \<Rightarrow> (string \<Rightarrow> 'st option) \<Rightarrow> (string \<Rightarrow> bool)
     \<Rightarrow> 'st cache option \<Rightarrow> MediaDCGroup list \<Rightarrow> (error + exec_state) \<times> 'st cache option" where
  "main cacheInfo dryRun excludeArgs includeArgs stat deleteFile cacheFile0 results =
     (let r = getFilesInfo cacheInfo stat cacheFile0 results;
          exclude = normalizeRules excludeArgs;
          include = normalizeRules includeArgs
      in case processGroups dryRun deleteFile exclude include (fileInfo r) results initialExec of
           Inl e \<Rightarrow> (Inl e, cacheFile r)
         | Inr s \<Rightarrow>
             (Inr s,
              if cacheInfo \<and> cacheFile r \<noteq> None
              then (if dryRun then cacheFile r else None)
              else cacheFile r))"

section \<open>Example inputs\<close>

definition mkFile :: "int \<Rightarrow> string \<Rightarrow> int \<Rightarrow> MediaDCFile" where
  "mkFile k path sz = \<lparr>fileid = k, filename = path, filepath = path, filesize = sz\<rparr>"

definition mkGroup :: "MediaDCFile list \<Rightarrow> MediaDCGroup" where
  "mkGroup fs = \<lparr>task_id = 1, group_id = 1, files = fs\<rparr>"

text \<open>
  Files that have not been looked up: \<^verbatim>\<open>files/a\<close>, \<^verbatim>\<open>files/aa\<close>, ...; file
  \<open>k\<close> has \<open>k\<close> letters, and \<open>freshFiles m n\<close> are the files \<open>m\<close> to \<open>n - 1\<close>.
\<close>

definition freshFile :: "nat \<Rightarrow> MediaDCFile" where
  "freshFile k = mkFile (int k) (''files/'' @ replicate k (CHR ''a'')) 1"

definition freshFiles :: "nat \<Rightarrow> nat \<Rightarrow> MediaDCFile list" where
  "freshFiles m n = map freshFile [m..<n]"

text \<open>Remote stores: every stat answers, every stat throws, every delete but one returns.\<close>

definition statAlways :: "string \<Rightarrow> unit option" where
  "statAlways p = Some ()"

definition statNever :: "string \<Rightarrow> unit option" where
  "statNever p = None"

definition deleteExcept :: "string \<Rightarrow> string \<Rightarrow> bool" where
  "deleteExcept bad p = (p \<noteq> bad)"

text \<open>
  A cache file that knows one path, and a group of 900 files whose 500th file is that
  path; the other 899 have not been looked up.
\<close>

definition staleCache :: "unit cache" where
  "staleCache = [(''files/x'', IsFalse)]"

definition lateGroup :: MediaDCGroup where
  "lateGroup = mkGroup (freshFiles 1 500 @ [mkFile 0 ''files/x'' 1] @ freshFiles 500 900)"

text \<open>The state of \<^verbatim>\<open>getFilesInfo\<close> on that input when the loops end, before the last save.\<close>

definition lateRun :: "(string \<Rightarrow> unit option) \<Rightarrow> unit resolver_state" where
  "lateRun stat =
     resolveGroups True stat [lateGroup]
       \<lparr>fileInfo = loadCache True (Some staleCache), processed = 0, events = [],
          cacheFile = Some staleCache\<rparr>"

section \<open>Unfolding the definitions on concrete inputs\<close>

lemmas example_defs = mkFile_def mkGroup_def statAlways_def statNever_def deleteExcept_def

lemmas string_defs = toUpperCase_def upperChar_def trim_def isSpace_def normalizeRules_def
  matchesAny_def cleanupPath_def

lemmas selector_defs = selectGroup_def walkStep_def initialWalk_def toDelLen_def
  fallbackKeeper_def at_def verdictOf_def liveFiles_def isLive_def compareFiles_def hasKey_def

lemmas resolver_defs = getFilesInfo_def loadCache_def resolveGroups_def resolveFiles_def
  resolveFile_def saveCacheData_def

lemmas executor_defs = main_def processGroup_def remove_def initialExec_def

section \<open>Path normalization\<close>

lemma startsWith_iff: "startsWith s p \<longleftrightarrow> (\<exists>r. s = p @ r)"
  by (induction s p rule: startsWith.induct) auto

lemma split_no_sep: "sep \<notin> set w \<Longrightarrow> split sep (w @ sep # rest) = w # split sep rest"
  by (induction w) auto

lemma split_nonempty: "split sep s \<noteq> []"
  by (induction s) (auto split: list.splits)

lemma join_Cons: "ws \<noteq> [] \<Longrightarrow> join sep (w # ws) = w @ sep # join sep ws"
  by (cases ws) auto

lemma join_push: "join sep ((c # w) # ws) = c # join sep (w # ws)"
  by (cases ws) auto

lemma join_split: "join sep (split sep s) = s"
proof (induction s)
  case Nil
  then show ?case by simp
next
  case (Cons c s)
  then show ?case
    by (cases "split sep s") (auto simp: split_nonempty join_Cons join_push simp del: join.simps)
qed

text \<open>\<open>cleanupPath\<close> drops the six characters of a leading \<^verbatim>\<open>files/\<close> and nothing else.\<close>

lemma cleanupPath_drop:
  "cleanupPath p = (if startsWith p ''files/'' then drop 6 p else p)"
proof (cases "startsWith p ''files/''")
  case True
  then have "p = ''files'' @ CHR ''/'' # drop 6 p"
    by (auto simp: startsWith_iff)
  then have "split (CHR ''/'') p = ''files'' # split (CHR ''/'') (drop 6 p)"
    using split_no_sep[of "CHR ''/''" "''files''" "drop 6 p"] by simp
  with True show ?thesis by (simp add: cleanupPath_def join_split)
next
  case False
  then show ?thesis by (simp add: cleanupPath_def)
qed

section \<open>The sort\<close>

lemma compareFiles_le0: "compareFiles a b \<le> 0 \<longleftrightarrow> sortedBefore a b"
  by (auto simp: compareFiles_def sortedBefore_def)

lemma sortedBefore_total: "\<not> sortedBefore a b \<Longrightarrow> sortedBefore b a"
  by (auto simp: sortedBefore_def)

lemma sortedBefore_trans: "sortedBefore a b \<Longrightarrow> sortedBefore b c \<Longrightarrow> sortedBefore a c"
  by (auto simp: sortedBefore_def)

lemma set_insertBy: "set (insertBy cmp x ys) = insert x (set ys)"
  by (induction ys) auto

lemma mset_insertBy: "mset (insertBy cmp x ys) = add_mset x (mset ys)"
  by (induction ys) auto

lemma mset_sortBy: "mset (sortBy cmp xs) = mset xs"
  by (induction xs) (auto simp: mset_insertBy)

lemma sorted_insertBy:
  "sorted_wrt sortedBefore ys \<Longrightarrow> sorted_wrt sortedBefore (insertBy compareFiles x ys)"
proof (induction ys)
  case Nil
  then show ?case by simp
next
  case (Cons y ys)
  show ?case
  proof (cases "compareFiles x y \<le> 0")
    case True
    then have "sortedBefore x y" by (simp add: compareFiles_le0)
    with Cons.prems have "\<forall>z\<in>set (y # ys). sortedBefore x z"
      by (auto intro: sortedBefore_trans)
    with True Cons.prems show ?thesis by simp
  next
    case False
    then have "sortedBefore y x"
      by (simp add: compareFiles_le0 sortedBefore_total)
    with False Cons show ?thesis by (auto simp: set_insertBy)
  qed
qed

lemma sorted_sortBy: "sorted_wrt sortedBefore (sortBy compareFiles xs)"
  by (induction xs) (auto intro: sorted_insertBy)

text \<open>
  Claim C3, as the code has it. The live files of a group are a permutation of the
  files the filter lets through, ordered by size descending and, among files of the same
  size, by path length ascending: the shorter path comes first.
\<close>

theorem liveFiles_sorted:
  "sorted_wrt sortedBefore (liveFiles info g)
   \<and> mset (liveFiles info g) = mset (filter (\<lambda>f. isLive info (filepath f)) (files g))"
  by (simp add: liveFiles_def sorted_sortBy mset_sortBy)

text \<open>
  Claim C3 as stated (the longer path first among equal sizes) fails: of two live files
  of 100 bytes, \<^verbatim>\<open>files/a.jpg\<close> is put before the longer \<^verbatim>\<open>files/bb.jpg\<close>.
\<close>

theorem tie_break_shorter_path_first:
  "liveFiles [(''files/a.jpg'', FileStat ()), (''files/bb.jpg'', FileStat ())]
     (mkGroup [mkFile 2 ''files/bb.jpg'' 100, mkFile 1 ''files/a.jpg'' 100])
   = [mkFile 1 ''files/a.jpg'' 100, mkFile 2 ''files/bb.jpg'' 100]
   \<and> filesize (mkFile 1 ''files/a.jpg'' 100) = filesize (mkFile 2 ''files/bb.jpg'' 100)
   \<and> length (filepath (mkFile 1 ''files/a.jpg'' 100))
       < length (filepath (mkFile 2 ''files/bb.jpg'' 100))"
  by (simp add: example_defs selector_defs)

section \<open>The selector\<close>

lemma walkStep_fnis_le:
  "firstNonIncludedWithSameSize s \<le> i \<Longrightarrow>
   firstNonIncludedWithSameSize (walkStep ex inc i f nxt s) \<le> (if nxt = None then i else Suc i)"
  by (auto simp: walkStep_def Let_def split: option.splits)

lemma walk_fnis_bound:
  "fs \<noteq> [] \<Longrightarrow> firstNonIncludedWithSameSize s \<le> i \<Longrightarrow>
   firstNonIncludedWithSameSize (walk ex inc i fs s) < i + length fs"
proof (induction fs arbitrary: i s)
  case Nil
  then show ?case by simp
next
  case (Cons f rest)
  show ?case
  proof (cases rest)
    case Nil
    with Cons.prems walkStep_fnis_le[of s i ex inc f None] show ?thesis by simp
  next
    case (Cons g gs)
    have "firstNonIncludedWithSameSize (walkStep ex inc i f (Some g) s) \<le> Suc i"
      using walkStep_fnis_le[of s i ex inc f "Some g"] Cons.prems by simp
    with Cons.IH[of "walkStep ex inc i f (Some g) s" "Suc i"] Cons show ?thesis by simp
  qed
qed

lemma length_update_new:
  "k \<notin> fst ` set al \<Longrightarrow> length (AList.update k v al) = Suc (length al)"
  by (induction al) auto

lemma length_delete_mem:
  "distinct (map fst al) \<Longrightarrow> k \<in> fst ` set al \<Longrightarrow> Suc (length (AList.delete k al)) = length al"
  by (induction al) (auto simp: rev_image_eqI)

lemma walkStep_inv:
  assumes "walkInv i ids s" and "fileid f \<notin> set ids"
  shows "walkInv (Suc i) (ids @ [fileid f]) (walkStep ex inc i f nxt s)"
proof -
  from assms have new: "fileid f \<notin> fst ` set (toDelete s)"
    by (auto simp: walkInv_def)
  show ?thesis
    using assms new
    by (auto simp: walkInv_def walkStep_def Let_def length_update_new AList.distinct_update
          AList.dom_update split: option.splits)
qed

lemma walk_inv:
  "walkInv i ids s \<Longrightarrow> distinct (ids @ map fileid fs) \<Longrightarrow>
   walkInv (i + length fs) (ids @ map fileid fs) (walk ex inc i fs s)"
proof (induction fs arbitrary: i ids s)
  case Nil
  then show ?case by simp
next
  case (Cons f rest)
  let ?s = "walkStep ex inc i f (case rest of [] \<Rightarrow> None | g # _ \<Rightarrow> Some g) s"
  have "walkInv (Suc i) (ids @ [fileid f]) ?s"
    using Cons.prems by (intro walkStep_inv) auto
  moreover have "distinct ((ids @ [fileid f]) @ map fileid rest)"
    using Cons.prems by auto
  ultimately have "walkInv (Suc i + length rest) ((ids @ [fileid f]) @ map fileid rest)
      (walk ex inc (Suc i) rest ?s)"
    by (rule Cons.IH)
  then show ?case by simp
qed

lemma at_mem: "at xs k = Some x \<Longrightarrow> x \<in> set xs"
  by (auto simp: at_def split: if_splits)

lemma fallbackKeeper_mem:
  "fs \<noteq> [] \<Longrightarrow> \<exists>f. fallbackKeeper inc fs k = Some f \<and> f \<in> set fs"
proof -
  assume "fs \<noteq> []"
  then have "at fs 0 \<noteq> None" by (simp add: at_def)
  then show ?thesis
    by (auto simp: fallbackKeeper_def split: option.splits dest: at_mem)
qed

lemma keys_full:
  assumes "distinct ks" and "set ks \<subseteq> set ids" and "length ks = length ids"
  shows "set ks = set ids"
proof -
  have "card (set ids) \<le> length ids" by (rule card_length)
  also have "\<dots> = card (set ks)" using assms by (simp add: distinct_card)
  finally show ?thesis using assms(2) by (simp add: card_seteq)
qed

text \<open>
  On at least two files with distinct ids the selector returns, and its marks are
  distinct ids of the group, one fewer than there are files.
\<close>

lemma selectGroup_shape:
  assumes dist: "distinct (map fileid fs)" and len: "2 \<le> length fs"
  shows "\<exists>d. selectGroup ex inc fs = Inr d \<and> distinct (map fst d)
           \<and> fst ` set d \<subseteq> fileid ` set fs \<and> Suc (length d) = length fs"
proof -
  let ?s = "walk ex inc 0 fs initialWalk"
  have "walkInv 0 [] initialWalk" by (simp add: walkInv_def initialWalk_def)
  from walk_inv[OF this, of fs ex inc] dist
  have inv: "walkInv (length fs) (map fileid fs) ?s" by simp
  have ne: "fs \<noteq> []" using len by auto
  show ?thesis
  proof (cases "keptOne ?s")
    case True
    with inv len show ?thesis
      by (auto simp: walkInv_def selectGroup_def Let_def toDelLen_def)
  next
    case False
    with inv have full: "length (toDelete ?s) = length fs"
      and d: "distinct (map fst (toDelete ?s))"
      and sub: "set (map fst (toDelete ?s)) \<subseteq> set (map fileid fs)"
      by (auto simp: walkInv_def)
    have keys: "set (map fst (toDelete ?s)) = set (map fileid fs)"
      using keys_full[OF d sub] full by simp
    from fallbackKeeper_mem[OF ne] obtain f where
      f: "fallbackKeeper inc fs (firstNonIncludedWithSameSize ?s) = Some f" "f \<in> set fs"
      by blast
    have "fileid f \<in> fst ` set (toDelete ?s)" using keys f(2) by auto
    from length_delete_mem[OF d this]
    have l: "Suc (length (AList.delete (fileid f) (toDelete ?s))) = length fs"
      using full by simp
    have "fst ` set (AList.delete (fileid f) (toDelete ?s)) \<subseteq> fileid ` set fs"
      using AList.dom_delete_subset[of "fileid f" "toDelete ?s"] sub by auto
    with l f full len d show ?thesis
      by (auto simp: selectGroup_def Let_def toDelLen_def AList.distinct_delete)
  qed
qed

lemma count_marked:
  assumes "distinct (map fileid fs)" and "distinct (map fst d)"
    and "fst ` set d \<subseteq> fileid ` set fs"
  shows "length (filter (\<lambda>f. map_of d (fileid f) \<noteq> None) fs) = length d"
proof -
  have "length (filter (\<lambda>f. map_of d (fileid f) \<noteq> None) fs)
      = length (filter (\<lambda>k. k \<in> fst ` set d) (map fileid fs))"
    by (simp add: filter_map comp_def map_of_eq_None_iff)
  also have "\<dots> = card (set (filter (\<lambda>k. k \<in> fst ` set d) (map fileid fs)))"
    using assms(1) by (simp add: distinct_card del: set_filter)
  also have "set (filter (\<lambda>k. k \<in> fst ` set d) (map fileid fs)) = set (map fst d)"
    using assms(3) by auto
  also have "card (set (map fst d)) = length d"
    using assms(2) by (simp add: distinct_card del: set_map)
  finally show ?thesis .
qed

lemma isDelete_verdictOf: "isDelete (verdictOf d f) \<longleftrightarrow> map_of d (fileid f) \<noteq> None"
  by (simp add: verdictOf_def split: option.splits)

lemma isKeep_verdictOf: "verdictOf d f = Keep \<longleftrightarrow> \<not> isDelete (verdictOf d f)"
  by (cases "verdictOf d f") auto

text \<open>
  Claim C1. For the N live files of a group, N at least 2, with the pairwise distinct
  file ids of the data model, and for any exclude and include lists, the selector passes
  its sanity check and returns a map with N - 1 marks: exactly one file gets the verdict
  Keep and exactly N - 1 files get a Delete verdict, and the group loop goes on to the
  deletion pass instead of throwing.
\<close>

theorem selector_single_survivor:
  assumes "fs = liveFiles info g" and "distinct (map fileid fs)" and "2 \<le> length fs"
  shows "\<exists>d. selectGroup exclude include fs = Inr d
           \<and> int (toDelLen d) = int (length fs) - 1
           \<and> length (filter (\<lambda>f. isDelete (verdictOf d f)) fs) = length fs - 1
           \<and> length (filter (\<lambda>f. verdictOf d f = Keep) fs) = 1
           \<and> processGroup dryRun deleteFile exclude include info g s
               = Inr (deleteMarked dryRun deleteFile d fs s)"
proof -
  from selectGroup_shape[OF assms(2,3), of "exclude" "include"] obtain d where
    d: "selectGroup exclude include fs = Inr d" "distinct (map fst d)"
      "fst ` set d \<subseteq> fileid ` set fs" "Suc (length d) = length fs"
    by blast
  have del: "length (filter (\<lambda>f. isDelete (verdictOf d f)) fs) = length d"
    using count_marked[OF assms(2) d(2,3)] by (simp add: isDelete_verdictOf)
  have "length (filter (\<lambda>f. verdictOf d f = Keep) fs)
      = length (filter (\<lambda>f. \<not> isDelete (verdictOf d f)) fs)"
    by (simp add: isKeep_verdictOf)
  also have "\<dots> = length fs - length (filter (\<lambda>f. isDelete (verdictOf d f)) fs)"
    using sum_length_filter_compl[of "\<lambda>f. isDelete (verdictOf d f)" fs] by simp
  finally have keep: "length (filter (\<lambda>f. verdictOf d f = Keep) fs) = 1"
    using del d(4) by simp
  have "processGroup dryRun deleteFile exclude include info g s
      = Inr (deleteMarked dryRun deleteFile d fs s)"
    using assms(1,3) d(1) by (simp add: processGroup_def Let_def)
  with d(1,4) del keep show ?thesis
    by (auto simp: toDelLen_def)
qed

theorem selector_single_survivor_witness:
  "distinct (map fileid
     (liveFiles [(''files/a.jpg'', FileStat ()), (''files/keep/b.jpg'', FileStat ()),
                 (''files/inc/c.jpg'', FileStat ())]
        (mkGroup [mkFile 1 ''files/a.jpg'' 100, mkFile 2 ''files/keep/b.jpg'' 100,
                  mkFile 3 ''files/inc/c.jpg'' 50])))
   \<and> 2 \<le> length
     (liveFiles [(''files/a.jpg'', FileStat ()), (''files/keep/b.jpg'', FileStat ()),
                 (''files/inc/c.jpg'', FileStat ())]
        (mkGroup [mkFile 1 ''files/a.jpg'' 100, mkFile 2 ''files/keep/b.jpg'' 100,
                  mkFile 3 ''files/inc/c.jpg'' 50]))
   \<and> (\<exists>d. selectGroup [''KEEP''] [''INC'']
     (liveFiles [(''files/a.jpg'', FileStat ()), (''files/keep/b.jpg'', FileStat ()),
                 (''files/inc/c.jpg'', FileStat ())]
        (mkGroup [mkFile 1 ''files/a.jpg'' 100, mkFile 2 ''files/keep/b.jpg'' 100,
                  mkFile 3 ''files/inc/c.jpg'' 50])) = Inr d
        \<and> int (toDelLen d) = 2)"
proof -
  let ?fs = "liveFiles [(''files/a.jpg'', FileStat ()), (''files/keep/b.jpg'', FileStat ()),
                 (''files/inc/c.jpg'', FileStat ())]
        (mkGroup [mkFile 1 ''files/a.jpg'' 100, mkFile 2 ''files/keep/b.jpg'' 100,
                  mkFile 3 ''files/inc/c.jpg'' 50])"
  have l: "length ?fs = 3"
    by (simp add: example_defs selector_defs)
  have h1: "distinct (map fileid ?fs)"
    by (simp add: example_defs selector_defs)
  have h2: "2 \<le> length ?fs"
    by (simp add: l)
  from selector_single_survivor[OF refl h1 h2, of "[''KEEP'']" "[''INC'']"]
  obtain d where "selectGroup [''KEEP''] [''INC''] ?fs = Inr d"
    and "int (toDelLen d) = int (length ?fs) - 1"
    by blast
  with h1 h2 l show ?thesis by auto
qed

text \<open>
  Claim C10. For a non-empty list of files and any rule lists, the running index
  \<^verbatim>\<open>firstNonIncludedWithSameSize\<close> ends the walk at most at the last valid index, so
  \<^verbatim>\<open>files[firstNonIncludedWithSameSize]\<close> is a file, the fallback expression picks a
  file of the list, and after \<^verbatim>\<open>toDelete.delete(file.fileid)\<close> that file is unmarked.
\<close>

theorem fallback_index_in_range:
  assumes "fs \<noteq> []"
  shows "firstNonIncludedWithSameSize (walk exclude include 0 fs initialWalk) \<le> length fs - 1
     \<and> at fs (firstNonIncludedWithSameSize (walk exclude include 0 fs initialWalk)) \<noteq> None
     \<and> (\<exists>file. fallbackKeeper include fs
                   (firstNonIncludedWithSameSize (walk exclude include 0 fs initialWalk))
                 = Some file
            \<and> file \<in> set fs
            \<and> \<not> hasKey (AList.delete (fileid file)
                          (toDelete (walk exclude include 0 fs initialWalk))) (fileid file))"
proof -
  let ?s = "walk exclude include 0 fs initialWalk"
  have "firstNonIncludedWithSameSize ?s < 0 + length fs"
    by (rule walk_fnis_bound[OF assms]) (simp add: initialWalk_def)
  then have b: "firstNonIncludedWithSameSize ?s < length fs" by simp
  from fallbackKeeper_mem[OF assms] obtain kept where
    f: "fallbackKeeper include fs (firstNonIncludedWithSameSize ?s) = Some kept" "kept \<in> set fs"
    by blast
  have "\<not> hasKey (AList.delete (fileid kept) (toDelete ?s)) (fileid kept)"
    by (simp add: hasKey_def AList.delete_conv')
  with b f show ?thesis by (auto simp: at_def)
qed

theorem fallback_index_in_range_witness:
  "[mkFile 1 ''files/inc/a.jpg'' 100, mkFile 2 ''files/inc/bb.jpg'' 100] \<noteq> []
   \<and> firstNonIncludedWithSameSize
       (walk [] [''INC''] 0 [mkFile 1 ''files/inc/a.jpg'' 100, mkFile 2 ''files/inc/bb.jpg'' 100]
          initialWalk)
     \<le> length [mkFile 1 ''files/inc/a.jpg'' 100, mkFile 2 ''files/inc/bb.jpg'' 100] - 1"
  using fallback_index_in_range
    [of "[mkFile 1 ''files/inc/a.jpg'' 100, mkFile 2 ''files/inc/bb.jpg'' 100]" "[]" "[''INC'']"]
  by simp

text \<open>
  Claim C2 fails when the file that matches no pattern sorts first. With the exclude
  argument \<^verbatim>\<open>keep\<close>, the 200-byte \<^verbatim>\<open>files/big.jpg\<close> comes before the 100-byte
  \<^verbatim>\<open>files/keep/small.jpg\<close>; the walk keeps the first and marks the excluded file
  \<^verbatim>\<open>excluded-dupe\<close>.
\<close>

theorem excluded_file_deleted_after_bigger:
  "liveFiles [(''files/keep/small.jpg'', FileStat ()), (''files/big.jpg'', FileStat ())]
     (mkGroup [mkFile 1 ''files/keep/small.jpg'' 100, mkFile 2 ''files/big.jpg'' 200])
   = [mkFile 2 ''files/big.jpg'' 200, mkFile 1 ''files/keep/small.jpg'' 100]
   \<and> matchesAny (normalizeRules [''keep'']) ''files/keep/small.jpg''
   \<and> \<not> matchesAny (normalizeRules [''keep'']) ''files/big.jpg''
   \<and> selectGroup (normalizeRules [''keep'']) []
        [mkFile 2 ''files/big.jpg'' 200, mkFile 1 ''files/keep/small.jpg'' 100]
      = Inr [(1, ExcludedDupe)]
   \<and> verdictOf [(1, ExcludedDupe)] (mkFile 1 ''files/keep/small.jpg'' 100) = Delete ExcludedDupe
   \<and> verdictOf [(1, ExcludedDupe)] (mkFile 2 ''files/big.jpg'' 200) = Keep"
  by (simp add: example_defs string_defs selector_defs)

text \<open>
  Claim C5 fails when the first two files have the same size. With the include argument
  \<^verbatim>\<open>inc\<close> and two live 100-byte files that both match, the running index moves to 1 at
  the first file, and the fallback keeps \<^verbatim>\<open>files[1]\<close>: the first file of the sorted
  order is deleted and the second is kept.
\<close>

theorem all_included_keeps_second:
  "liveFiles [(''files/inc/a.jpg'', FileStat ()), (''files/inc/bb.jpg'', FileStat ())]
     (mkGroup [mkFile 1 ''files/inc/a.jpg'' 100, mkFile 2 ''files/inc/bb.jpg'' 100])
   = [mkFile 1 ''files/inc/a.jpg'' 100, mkFile 2 ''files/inc/bb.jpg'' 100]
   \<and> matchesAny (normalizeRules [''inc'']) ''files/inc/a.jpg''
   \<and> matchesAny (normalizeRules [''inc'']) ''files/inc/bb.jpg''
   \<and> selectGroup [] (normalizeRules [''inc''])
        [mkFile 1 ''files/inc/a.jpg'' 100, mkFile 2 ''files/inc/bb.jpg'' 100]
      = Inr [(1, Include)]
   \<and> verdictOf [(1, Include)] (mkFile 1 ''files/inc/a.jpg'' 100) = Delete Include
   \<and> verdictOf [(1, Include)] (mkFile 2 ''files/inc/bb.jpg'' 100) = Keep"
  by (simp add: example_defs string_defs selector_defs)

section \<open>The deletion pass\<close>

lemma remove_counters:
  "deleted (remove dry del f s) = deleted s \<and> deletedSize (remove dry del f s) = deletedSize s"
  by (simp add: remove_def Let_def)

lemma remove_calls:
  "deleteCalls (remove dry del f s)
     = deleteCalls s @ (if dry then [] else [(cleanupPath (filepath f), del (cleanupPath (filepath f)))])"
  by (simp add: remove_def Let_def)

text \<open>
  Claim C4, as the code has it. The deletion pass goes through all marked files in
  sorted order whatever the remote delete calls do: unless this is a dry run, one delete
  call is made for every marked file, on its normalized path, also after a call that
  threw. The counter and the byte total grow by every marked file, before its delete call
  and whether or not that call returns.
\<close>

theorem deleteMarked_counts_every_mark:
  "deleted (deleteMarked dry del d fs s)
     = deleted s + length (filter (\<lambda>f. hasKey d (fileid f)) fs)
   \<and> deletedSize (deleteMarked dry del d fs s)
     = deletedSize s + sum_list (map filesize (filter (\<lambda>f. hasKey d (fileid f)) fs))
   \<and> deleteCalls (deleteMarked dry del d fs s)
     = deleteCalls s @
       (if dry then []
        else map (\<lambda>f. (cleanupPath (filepath f), del (cleanupPath (filepath f))))
               (filter (\<lambda>f. hasKey d (fileid f)) fs))"
  by (induction fs arbitrary: s) (simp_all add: remove_counters remove_calls)

text \<open>
  Claim C4 as stated (the failed file is not counted) fails. In a group of three live
  files of 100, 100 and 50 bytes with no rules, the two marked files are
  \<^verbatim>\<open>files/bb.jpg\<close> and \<^verbatim>\<open>files/c.jpg\<close>. When the delete of \<^verbatim>\<open>bb.jpg\<close> throws, the
  delete of \<^verbatim>\<open>c.jpg\<close> is still made, and the run ends with the count 2 and 150 bytes,
  although one delete of 50 bytes succeeded.
\<close>

theorem failed_delete_is_counted:
  "main True False [] [] statAlways (deleteExcept ''bb.jpg'') None
     [mkGroup [mkFile 3 ''files/c.jpg'' 50, mkFile 2 ''files/bb.jpg'' 100,
               mkFile 1 ''files/a.jpg'' 100]]
   = (Inr \<lparr>deleted = 2, deletedSize = 150,
           deleteCalls = [(''bb.jpg'', False), (''c.jpg'', True)],
           deleteErrors = [''files/bb.jpg'']\<rparr>,
      None)"
  by (simp add: example_defs string_defs selector_defs resolver_defs executor_defs Let_def)

section \<open>The resolver\<close>

lemma hasKey_iff: "hasKey m k \<longleftrightarrow> k \<in> fst ` set m"
  by (simp add: hasKey_def map_of_eq_None_iff)

lemma resolveFile_processed: "processed (resolveFile ci stat f s) = Suc (processed s)"
  by (simp add: resolveFile_def saveCacheData_def Let_def split: option.splits)

lemma resolveFile_keys:
  "fst ` set (fileInfo (resolveFile ci stat f s)) = insert (filepath f) (fst ` set (fileInfo s))"
  by (auto simp: resolveFile_def saveCacheData_def Let_def hasKey_iff AList.dom_update
        split: option.splits)

lemma resolveFile_stable:
  "hasKey (fileInfo s) p \<Longrightarrow> map_of (fileInfo (resolveFile ci stat f s)) p = map_of (fileInfo s) p"
  by (auto simp: resolveFile_def saveCacheData_def Let_def AList.update_conv'
        split: option.splits)

lemma resolveFile_stat_events:
  "Stat p q \<in> set (events (resolveFile ci stat f s)) \<Longrightarrow>
   Stat p q \<in> set (events s)
   \<or> (p = filepath f \<and> q = cleanupPath p \<and> \<not> hasKey (fileInfo s) p)"
  by (auto simp: resolveFile_def saveCacheData_def Let_def split: option.splits if_splits)

lemma resolveFile_failed:
  assumes "\<not> hasKey (fileInfo s) (filepath f)"
    and "\<not> startsWith (filepath f) ''files_trashbin''"
    and "stat (cleanupPath (filepath f)) = None"
  shows "map_of (fileInfo (resolveFile ci stat f s)) (filepath f) = Some IsFalse"
  using assms by (simp add: resolveFile_def saveCacheData_def Let_def AList.update_conv')

lemma resolveFile_cached:
  "hasKey (fileInfo s) (filepath f) \<Longrightarrow>
   resolveFile ci stat f s = s\<lparr>processed := Suc (processed s)\<rparr>"
  by (simp add: resolveFile_def Let_def)

lemma resolveFiles_keys:
  "fst ` set (fileInfo (resolveFiles ci stat fs s)) = filepath ` set fs \<union> fst ` set (fileInfo s)"
  unfolding resolveFiles_def
  by (induction fs arbitrary: s) (auto simp: resolveFile_keys)

lemma resolveFiles_stable:
  "hasKey (fileInfo s) p \<Longrightarrow>
   map_of (fileInfo (resolveFiles ci stat fs s)) p = map_of (fileInfo s) p"
  unfolding resolveFiles_def
proof (induction fs arbitrary: s)
  case Nil
  then show ?case by simp
next
  case (Cons f fs)
  have "hasKey (fileInfo (resolveFile ci stat f s)) p"
    using Cons.prems by (simp add: hasKey_iff resolveFile_keys)
  from Cons.IH[OF this] resolveFile_stable[OF Cons.prems] show ?case by simp
qed

lemma resolveFiles_stat_events:
  "Stat p q \<in> set (events (resolveFiles ci stat fs s)) \<Longrightarrow>
   Stat p q \<in> set (events s)
   \<or> (p \<in> filepath ` set fs \<and> q = cleanupPath p \<and> \<not> hasKey (fileInfo s) p)"
  unfolding resolveFiles_def
proof (induction fs arbitrary: s)
  case Nil
  then show ?case by simp
next
  case (Cons f fs)
  let ?s = "resolveFile ci stat f s"
  from Cons.prems have "Stat p q \<in> set (events (fold (resolveFile ci stat) fs ?s))" by simp
  from Cons.IH[OF this] show ?case
  proof
    assume "Stat p q \<in> set (events ?s)"
    from resolveFile_stat_events[OF this] show ?thesis by auto
  next
    assume "p \<in> filepath ` set fs \<and> q = cleanupPath p \<and> \<not> hasKey (fileInfo ?s) p"
    then show ?thesis by (auto simp: hasKey_iff resolveFile_keys)
  qed
qed

lemma resolveFiles_failed:
  assumes "p \<in> filepath ` set fs" and "\<not> hasKey (fileInfo s) p"
    and "\<not> startsWith p ''files_trashbin''" and "stat (cleanupPath p) = None"
  shows "map_of (fileInfo (resolveFiles ci stat fs s)) p = Some IsFalse"
  using assms(1,2)
proof (induction fs arbitrary: s)
  case Nil
  then show ?case by simp
next
  case (Cons f fs)
  let ?s = "resolveFile ci stat f s"
  have unf: "resolveFiles ci stat (f # fs) s = resolveFiles ci stat fs ?s"
    by (simp add: resolveFiles_def)
  show ?case
  proof (cases "filepath f = p")
    case True
    with Cons.prems assms(3,4) have v: "map_of (fileInfo ?s) p = Some IsFalse"
      using resolveFile_failed[of s f stat ci] by simp
    then have "hasKey (fileInfo ?s) p" by (simp add: hasKey_def)
    from resolveFiles_stable[OF this, of ci stat fs] v unf show ?thesis by simp
  next
    case False
    with Cons.prems have "p \<in> filepath ` set fs" and "\<not> hasKey (fileInfo ?s) p"
      by (auto simp: hasKey_iff resolveFile_keys)
    from Cons.IH[OF this] unf show ?thesis by simp
  qed
qed

lemma resolveGroups_keys:
  "fst ` set (fileInfo (resolveGroups ci stat gs s))
     = filepath ` (\<Union>g\<in>set gs. set (files g)) \<union> fst ` set (fileInfo s)"
  unfolding resolveGroups_def
  by (induction gs arbitrary: s) (auto simp: resolveFiles_keys)

lemma resolveGroups_stable:
  "hasKey (fileInfo s) p \<Longrightarrow>
   map_of (fileInfo (resolveGroups ci stat gs s)) p = map_of (fileInfo s) p"
  unfolding resolveGroups_def
proof (induction gs arbitrary: s)
  case Nil
  then show ?case by simp
next
  case (Cons g gs)
  have "hasKey (fileInfo (resolveFiles ci stat (files g) s)) p"
    using Cons.prems by (simp add: hasKey_iff resolveFiles_keys)
  from Cons.IH[OF this] resolveFiles_stable[OF Cons.prems] show ?case by simp
qed

lemma resolveGroups_stat_events:
  "Stat p q \<in> set (events (resolveGroups ci stat gs s)) \<Longrightarrow>
   Stat p q \<in> set (events s)
   \<or> (p \<in> filepath ` (\<Union>g\<in>set gs. set (files g)) \<and> q = cleanupPath p
       \<and> \<not> hasKey (fileInfo s) p)"
  unfolding resolveGroups_def
proof (induction gs arbitrary: s)
  case Nil
  then show ?case by simp
next
  case (Cons g gs)
  let ?s = "resolveFiles ci stat (files g) s"
  from Cons.prems
  have "Stat p q \<in> set (events (fold (\<lambda>g. resolveFiles ci stat (files g)) gs ?s))"
    by simp
  from Cons.IH[OF this] show ?case
  proof
    assume "Stat p q \<in> set (events ?s)"
    from resolveFiles_stat_events[OF this] show ?thesis by auto
  next
    assume "p \<in> filepath ` (\<Union>g\<in>set gs. set (files g)) \<and> q = cleanupPath p
      \<and> \<not> hasKey (fileInfo ?s) p"
    then show ?thesis by (auto simp: hasKey_iff resolveFiles_keys)
  qed
qed

lemma resolveGroups_failed:
  assumes "p \<in> filepath ` (\<Union>g\<in>set gs. set (files g))" and "\<not> hasKey (fileInfo s) p"
    and "\<not> startsWith p ''files_trashbin''" and "stat (cleanupPath p) = None"
  shows "map_of (fileInfo (resolveGroups ci stat gs s)) p = Some IsFalse"
  using assms(1,2)
proof (induction gs arbitrary: s)
  case Nil
  then show ?case by simp
next
  case (Cons g gs)
  let ?s = "resolveFiles ci stat (files g) s"
  have unf: "resolveGroups ci stat (g # gs) s = resolveGroups ci stat gs ?s"
    by (simp add: resolveGroups_def)
  show ?case
  proof (cases "p \<in> filepath ` set (files g)")
    case True
    have v: "map_of (fileInfo ?s) p = Some IsFalse"
      using resolveFiles_failed[of p "files g" s stat ci] True Cons.prems(2) assms(3,4)
      by simp
    then have "hasKey (fileInfo ?s) p" by (simp add: hasKey_def)
    from resolveGroups_stable[OF this, of ci stat gs] v unf show ?thesis by simp
  next
    case False
    with Cons.prems have "p \<in> filepath ` (\<Union>g\<in>set gs. set (files g))"
      and "\<not> hasKey (fileInfo ?s) p"
      by (auto simp: hasKey_iff resolveFiles_keys)
    from Cons.IH[OF this] unf show ?thesis by simp
  qed
qed

lemma saveCacheData_fileInfo: "fileInfo (saveCacheData ci s) = fileInfo s"
  by (simp add: saveCacheData_def)

lemma saveCacheData_stat:
  "Stat p q \<in> set (events (saveCacheData ci s)) \<longleftrightarrow> Stat p q \<in> set (events s)"
  by (auto simp: saveCacheData_def)

lemma getFilesInfo_fileInfo:
  "fileInfo (getFilesInfo ci stat cf gs)
     = fileInfo (resolveGroups ci stat gs
         \<lparr>fileInfo = loadCache ci cf, processed = 0, events = [], cacheFile = cf\<rparr>)"
  by (simp add: getFilesInfo_def Let_def saveCacheData_fileInfo)

lemma getFilesInfo_stat:
  "Stat p q \<in> set (events (getFilesInfo ci stat cf gs))
     \<longleftrightarrow> Stat p q \<in> set (events (resolveGroups ci stat gs
         \<lparr>fileInfo = loadCache ci cf, processed = 0, events = [], cacheFile = cf\<rparr>))"
  by (simp add: getFilesInfo_def Let_def saveCacheData_stat)

lemma getFilesInfo_cacheFile:
  "cacheFile (getFilesInfo True stat cf gs) = Some (fileInfo (getFilesInfo True stat cf gs))"
  by (simp add: getFilesInfo_def Let_def saveCacheData_def)

lemma getFilesInfo_cached_value:
  assumes "hasKey (loadCache ci cf) p"
  shows "map_of (fileInfo (getFilesInfo ci stat cf gs)) p = map_of (loadCache ci cf) p"
proof -
  let ?s0 = "\<lparr>fileInfo = loadCache ci cf, processed = 0, events = [], cacheFile = cf\<rparr>"
  have "hasKey (fileInfo ?s0) p" using assms by simp
  from resolveGroups_stable[OF this, of ci stat gs] show ?thesis
    by (simp add: getFilesInfo_fileInfo)
qed

lemma getFilesInfo_cached_no_stat:
  assumes "hasKey (loadCache ci cf) p"
  shows "Stat p q \<notin> set (events (getFilesInfo ci stat cf gs))"
proof -
  let ?s0 = "\<lparr>fileInfo = loadCache ci cf, processed = 0, events = [], cacheFile = cf\<rparr>"
  have "hasKey (fileInfo ?s0) p" using assms by simp
  with resolveGroups_stat_events[of p q ci stat gs ?s0] show ?thesis
    by (auto simp: getFilesInfo_stat)
qed

lemma loadCache_enabled: "hasKey (loadCache ci cf) p \<Longrightarrow> ci"
  by (cases ci) (simp_all add: loadCache_def hasKey_def)

text \<open>
  Claim C6. A path that is a key of the loaded cache, with a \<^verbatim>\<open>FileStat\<close> or with
  \<^verbatim>\<open>false\<close>, keeps its entry through the resolution, no stat call is made for it,
  and the snapshot written at the end is the resolved object with that entry.
\<close>

theorem cached_path_not_requeried:
  assumes "hasKey (loadCache cacheInfo cf) p"
  shows "map_of (fileInfo (getFilesInfo cacheInfo stat cf groups)) p
           = map_of (loadCache cacheInfo cf) p
     \<and> Stat p q \<notin> set (events (getFilesInfo cacheInfo stat cf groups))
     \<and> cacheFile (getFilesInfo cacheInfo stat cf groups)
           = Some (fileInfo (getFilesInfo cacheInfo stat cf groups))"
proof -
  from loadCache_enabled[OF assms] have "cacheInfo = True" by simp
  with getFilesInfo_cached_value[OF assms, of stat groups]
    getFilesInfo_cached_no_stat[OF assms, of q stat groups]
    getFilesInfo_cacheFile[of stat cf groups]
  show ?thesis by simp
qed

theorem cached_path_not_requeried_witness:
  "hasKey (loadCache True (Some [(''files/a.jpg'', FileStat ()), (''files/b.jpg'', IsFalse)]))
     ''files/b.jpg''
   \<and> map_of (fileInfo (getFilesInfo True statAlways
         (Some [(''files/a.jpg'', FileStat ()), (''files/b.jpg'', IsFalse)])
         [mkGroup [mkFile 1 ''files/a.jpg'' 100, mkFile 2 ''files/b.jpg'' 100,
                   mkFile 3 ''files/c.jpg'' 100]])) ''files/b.jpg''
     = Some IsFalse
   \<and> Stat ''files/b.jpg'' ''b.jpg'' \<notin> set (events (getFilesInfo True statAlways
         (Some [(''files/a.jpg'', FileStat ()), (''files/b.jpg'', IsFalse)])
         [mkGroup [mkFile 1 ''files/a.jpg'' 100, mkFile 2 ''files/b.jpg'' 100,
                   mkFile 3 ''files/c.jpg'' 100]]))"
proof -
  have h: "hasKey (loadCache True (Some [(''files/a.jpg'', FileStat ()), (''files/b.jpg'', IsFalse)]))
     ''files/b.jpg''"
    by (simp add: loadCache_def hasKey_def)
  have v: "map_of (loadCache True (Some [(''files/a.jpg'', FileStat ()), (''files/b.jpg'', IsFalse)]))
     ''files/b.jpg'' = Some (IsFalse :: unit file_info)"
    by (simp add: loadCache_def)
  from cached_path_not_requeried[OF h, of statAlways
      "[mkGroup [mkFile 1 ''files/a.jpg'' 100, mkFile 2 ''files/b.jpg'' 100,
                 mkFile 3 ''files/c.jpg'' 100]]" "''b.jpg''"] h v
  show ?thesis by simp
qed

text \<open>
  Claim C8, as the code has it. The keys of the cache are the \<^verbatim>\<open>filepath\<close> strings of
  the input files as they stand in the export, with any leading \<^verbatim>\<open>files/\<close>: after
  resolution the keys are those of the loaded cache and the \<^verbatim>\<open>filepath\<close> of every
  file of every group. Only the argument of a stat call is normalized: the call made for
  the \<^verbatim>\<open>filepath\<close> \<open>p\<close> of an input file has the argument \<open>cleanupPath p\<close>.
\<close>

theorem cache_keys_are_filepaths:
  "fst ` set (fileInfo (getFilesInfo cacheInfo stat cf groups))
     = filepath ` (\<Union>g\<in>set groups. set (files g)) \<union> fst ` set (loadCache cacheInfo cf)
   \<and> (\<forall>p q. Stat p q \<in> set (events (getFilesInfo cacheInfo stat cf groups)) \<longrightarrow>
          q = cleanupPath p \<and> p \<in> filepath ` (\<Union>g\<in>set groups. set (files g)))"
proof -
  let ?s0 = "\<lparr>fileInfo = loadCache cacheInfo cf, processed = 0, events = [], cacheFile = cf\<rparr>"
  have "fst ` set (fileInfo (getFilesInfo cacheInfo stat cf groups))
     = filepath ` (\<Union>g\<in>set groups. set (files g)) \<union> fst ` set (loadCache cacheInfo cf)"
    by (simp add: getFilesInfo_fileInfo resolveGroups_keys)
  moreover have "q = cleanupPath p \<and> p \<in> filepath ` (\<Union>g\<in>set groups. set (files g))"
    if "Stat p q \<in> set (events (getFilesInfo cacheInfo stat cf groups))" for p q
    using resolveGroups_stat_events[of p q cacheInfo stat groups ?s0] that
    by (auto simp: getFilesInfo_stat)
  ultimately show ?thesis by blast
qed

theorem cache_keys_are_filepaths_witness:
  "Stat ''files/a.jpg'' ''a.jpg''
     \<in> set (events (getFilesInfo True statAlways None [mkGroup [mkFile 1 ''files/a.jpg'' 100]]))
   \<and> ''a.jpg'' = cleanupPath ''files/a.jpg''
   \<and> fst ` set (fileInfo
         (getFilesInfo True statAlways None [mkGroup [mkFile 1 ''files/a.jpg'' 100]]))
       = {''files/a.jpg''}"
proof -
  have h: "Stat ''files/a.jpg'' ''a.jpg''
     \<in> set (events (getFilesInfo True statAlways None [mkGroup [mkFile 1 ''files/a.jpg'' 100]]))"
    by (simp add: example_defs string_defs resolver_defs hasKey_def Let_def)
  have k: "filepath ` (\<Union>g\<in>set [mkGroup [mkFile 1 ''files/a.jpg'' 100]]. set (files g))
      \<union> fst ` set (loadCache True (None :: unit cache option)) = {''files/a.jpg''}"
    by (simp add: example_defs loadCache_def)
  from cache_keys_are_filepaths[of True statAlways None "[mkGroup [mkFile 1 ''files/a.jpg'' 100]]"]
    h k
  show ?thesis by auto
qed

text \<open>
  Claim C8 as stated (every cache key is the normalized path handed to the remote
  client) fails: for the input file \<^verbatim>\<open>files/a.jpg\<close> the stat call is made on
  \<^verbatim>\<open>a.jpg\<close>, and the entry is written, and persisted, under \<^verbatim>\<open>files/a.jpg\<close>.
\<close>

theorem cache_key_keeps_files_prefix:
  "getFilesInfo True statAlways None [mkGroup [mkFile 1 ''files/a.jpg'' 100]]
   = \<lparr>fileInfo = [(''files/a.jpg'', FileStat ())], processed = 1,
       events = [Stat ''files/a.jpg'' ''a.jpg'', Save [(''files/a.jpg'', FileStat ())]],
       cacheFile = Some [(''files/a.jpg'', FileStat ())]\<rparr>"
  by (simp add: example_defs string_defs resolver_defs hasKey_def Let_def)

text \<open>
  Claim C9, as the code has it. There is no Unknown state: a path whose stat call throws
  is recorded as \<^verbatim>\<open>false\<close> under its \<^verbatim>\<open>filepath\<close>, like a path that does not exist,
  and with caching on the entry is in the snapshot written at the end of the resolution.
  A later resolution that loads this snapshot serves the path from the cache as
  \<^verbatim>\<open>false\<close> and makes no stat call for it, whatever the remote store answers by then.
\<close>

theorem failed_stat_persisted:
  assumes "g \<in> set groups" and "f \<in> set (files g)"
    and "\<not> hasKey (loadCache True cf) (filepath f)"
    and "\<not> startsWith (filepath f) ''files_trashbin''"
    and "stat (cleanupPath (filepath f)) = None"
    and "r = getFilesInfo True stat cf groups"
    and "r' = getFilesInfo True stat' (cacheFile r) groups'"
  shows "cacheFile r = Some (fileInfo r) \<and> map_of (fileInfo r) (filepath f) = Some IsFalse
    \<and> map_of (fileInfo r') (filepath f) = Some IsFalse \<and> Stat (filepath f) q \<notin> set (events r')"
proof -
  let ?p = "filepath f"
  have mem: "?p \<in> filepath ` (\<Union>g\<in>set groups. set (files g))"
    using assms(1,2) by blast
  have cf: "cacheFile r = Some (fileInfo r)"
    unfolding assms(6) by (rule getFilesInfo_cacheFile)
  have v: "map_of (fileInfo r) ?p = Some IsFalse"
    unfolding assms(6) getFilesInfo_fileInfo
    using resolveGroups_failed[of ?p groups _ stat True] mem assms(3,4,5) by simp
  have ld: "loadCache True (cacheFile r) = fileInfo r"
    by (simp add: cf loadCache_def)
  have k: "hasKey (loadCache True (cacheFile r)) ?p"
    using v by (simp add: ld hasKey_def)
  from getFilesInfo_cached_value[OF k, of stat' groups']
    getFilesInfo_cached_no_stat[OF k, of q stat' groups'] v cf
  show ?thesis by (simp add: assms(7) loadCache_def)
qed

theorem failed_stat_persisted_witness:
  "mkGroup [mkFile 1 ''files/a.jpg'' 100] \<in> set [mkGroup [mkFile 1 ''files/a.jpg'' 100]]
   \<and> mkFile 1 ''files/a.jpg'' 100 \<in> set (files (mkGroup [mkFile 1 ''files/a.jpg'' 100]))
   \<and> \<not> hasKey (loadCache True (None :: unit cache option)) (filepath (mkFile 1 ''files/a.jpg'' 100))
   \<and> \<not> startsWith (filepath (mkFile 1 ''files/a.jpg'' 100)) ''files_trashbin''
   \<and> statNever (cleanupPath (filepath (mkFile 1 ''files/a.jpg'' 100))) = None
   \<and> map_of (fileInfo (getFilesInfo True statAlways
         (cacheFile (getFilesInfo True statNever None [mkGroup [mkFile 1 ''files/a.jpg'' 100]]))
         [mkGroup [mkFile 1 ''files/a.jpg'' 100]]))
       (filepath (mkFile 1 ''files/a.jpg'' 100)) = Some IsFalse"
proof -
  have h1: "mkGroup [mkFile 1 ''files/a.jpg'' 100] \<in> set [mkGroup [mkFile 1 ''files/a.jpg'' 100]]"
    by simp
  have h2: "mkFile 1 ''files/a.jpg'' 100 \<in> set (files (mkGroup [mkFile 1 ''files/a.jpg'' 100]))"
    by (simp add: mkGroup_def)
  have h3: "\<not> hasKey (loadCache True (None :: unit cache option))
      (filepath (mkFile 1 ''files/a.jpg'' 100))"
    by (simp add: loadCache_def hasKey_def)
  have h4: "\<not> startsWith (filepath (mkFile 1 ''files/a.jpg'' 100)) ''files_trashbin''"
    by (simp add: mkFile_def)
  have h5: "statNever (cleanupPath (filepath (mkFile 1 ''files/a.jpg'' 100))) = None"
    by (simp add: statNever_def)
  from failed_stat_persisted[where stat = statNever and stat' = statAlways
      and groups' = "[mkGroup [mkFile 1 ''files/a.jpg'' 100]]", OF h1 h2 h3 h4 h5 refl refl]
    h1 h2 h3 h4 h5
  show ?thesis by blast
qed

text \<open>
  Claim C9 as stated (a failed query is asked again on every later run) fails. A dry run
  in which every stat call throws leaves a cache file with both paths as \<^verbatim>\<open>false\<close>;
  the next resolution, against a store that now answers every stat call, loads it, makes
  no stat call and reports both paths as \<^verbatim>\<open>false\<close> again.
\<close>

theorem failed_stat_served_from_cache:
  "main True True [] [] statNever (deleteExcept []) None
     [mkGroup [mkFile 1 ''files/a.jpg'' 100, mkFile 2 ''files/b.jpg'' 100]]
   = (Inr initialExec, Some [(''files/a.jpg'', IsFalse), (''files/b.jpg'', IsFalse)])
   \<and> getFilesInfo True statAlways (Some [(''files/a.jpg'', IsFalse), (''files/b.jpg'', IsFalse)])
       [mkGroup [mkFile 1 ''files/a.jpg'' 100, mkFile 2 ''files/b.jpg'' 100]]
   = \<lparr>fileInfo = [(''files/a.jpg'', IsFalse), (''files/b.jpg'', IsFalse)], processed = 2,
       events = [Save [(''files/a.jpg'', IsFalse), (''files/b.jpg'', IsFalse)]],
       cacheFile = Some [(''files/a.jpg'', IsFalse), (''files/b.jpg'', IsFalse)]\<rparr>"
  by (simp add: example_defs string_defs selector_defs resolver_defs executor_defs Let_def)

subsection \<open>The periodic save\<close>

lemma isStat_not_isSave: "isStat e \<longleftrightarrow> \<not> isSave e"
  by (cases e) auto

lemma no_save_all_stat: "filter isSave es = [] \<Longrightarrow> filter isStat es = es"
  by (induction es) (auto simp: isStat_not_isSave split: if_splits)

text \<open>
  A lookup of a new path outside the trash bin, at a count that is no multiple of 500,
  makes one stat call, writes one entry and does not touch the cache file.
\<close>

lemma resolveFile_quiet:
  assumes "\<not> hasKey (fileInfo s) (filepath f)" and "Suc (processed s) mod 500 \<noteq> 0"
    and "\<not> startsWith (filepath f) ''files_trashbin''"
  shows "cacheFile (resolveFile ci stat f s) = cacheFile s
    \<and> filter isSave (events (resolveFile ci stat f s)) = filter isSave (events s)
    \<and> length (events (resolveFile ci stat f s)) = Suc (length (events s))
    \<and> length (fileInfo (resolveFile ci stat f s)) = Suc (length (fileInfo s))"
  using assms
  by (auto simp: resolveFile_def Let_def hasKey_iff length_update_new split: option.splits)

lemma resolveFiles_quiet:
  assumes "distinct (map filepath fs)"
    and "\<forall>f\<in>set fs. \<not> hasKey (fileInfo s) (filepath f)
           \<and> \<not> startsWith (filepath f) ''files_trashbin''"
    and "processed s mod 500 + length fs < 500"
  shows "processed (resolveFiles ci stat fs s) = processed s + length fs
    \<and> cacheFile (resolveFiles ci stat fs s) = cacheFile s
    \<and> filter isSave (events (resolveFiles ci stat fs s)) = filter isSave (events s)
    \<and> length (events (resolveFiles ci stat fs s)) = length (events s) + length fs
    \<and> length (fileInfo (resolveFiles ci stat fs s)) = length (fileInfo s) + length fs"
  using assms
proof (induction fs arbitrary: s)
  case Nil
  then show ?case by (simp add: resolveFiles_def)
next
  case (Cons f fs)
  let ?s = "resolveFile ci stat f s"
  have unf: "resolveFiles ci stat (f # fs) s = resolveFiles ci stat fs ?s"
    by (simp add: resolveFiles_def)
  have m: "Suc (processed s) mod 500 = Suc (processed s mod 500)"
    using Cons.prems(3) by (simp add: mod_Suc)
  have q: "cacheFile ?s = cacheFile s
    \<and> filter isSave (events ?s) = filter isSave (events s)
    \<and> length (events ?s) = Suc (length (events s))
    \<and> length (fileInfo ?s) = Suc (length (fileInfo s))"
    using Cons.prems(2) m by (intro resolveFile_quiet) auto
  have p: "processed ?s = Suc (processed s)" by (rule resolveFile_processed)
  have "distinct (map filepath fs)" using Cons.prems(1) by simp
  moreover have "\<forall>g\<in>set fs. \<not> hasKey (fileInfo ?s) (filepath g)
      \<and> \<not> startsWith (filepath g) ''files_trashbin''"
    using Cons.prems(1,2) by (auto simp: hasKey_iff resolveFile_keys image_iff)
  moreover have "processed ?s mod 500 + length fs < 500"
    using Cons.prems(3) m p by simp
  ultimately show ?case
    using Cons.IH[of ?s] q p unf by simp
qed

lemma filepath_freshFile: "filepath (freshFile k) = ''files/'' @ replicate k (CHR ''a'')"
  by (simp add: freshFile_def mkFile_def)

lemma freshFile_inj: "filepath (freshFile j) = filepath (freshFile k) \<Longrightarrow> j = k"
proof -
  assume "filepath (freshFile j) = filepath (freshFile k)"
  then have "length (replicate j (CHR ''a'')) = length (replicate k (CHR ''a''))"
    by (simp add: filepath_freshFile)
  then show ?thesis by simp
qed

lemma length_freshFiles: "length (freshFiles m n) = n - m"
  by (simp add: freshFiles_def)

lemma freshFiles_distinct: "distinct (map filepath (freshFiles m n))"
  by (auto simp: freshFiles_def distinct_map inj_on_def dest: freshFile_inj)

lemma freshFiles_disjoint:
  "n \<le> m' \<Longrightarrow> f \<in> set (freshFiles m' n') \<Longrightarrow> filepath f \<notin> filepath ` set (freshFiles m n)"
  by (auto simp: freshFiles_def dest: freshFile_inj)

lemma freshFile_not_trash: "\<not> startsWith (filepath (freshFile k)) ''files_trashbin''"
  by (simp add: filepath_freshFile)

lemma freshFile_not_x: "filepath (freshFile k) \<noteq> ''files/x''"
  by (cases k) (simp_all add: filepath_freshFile)

lemma freshFiles_new:
  "f \<in> set (freshFiles m n) \<Longrightarrow>
   filepath f \<noteq> ''files/x'' \<and> \<not> startsWith (filepath f) ''files_trashbin''"
  by (auto simp: freshFiles_def freshFile_not_x freshFile_not_trash)

text \<open>
  Claim C7 fails when the file at a multiple of 500 is already in the cache. The cache
  file knows \<^verbatim>\<open>files/x\<close>, and the group has 900 files, the 500th being
  \<^verbatim>\<open>files/x\<close>. At the count 500 the loop takes the \<^verbatim>\<open>continue\<close> of a cached path
  before it reaches the save, and no later count is a multiple of 500. So when the loops
  end 899 stat calls have been made, no snapshot has been written and the cache file
  still holds its one old entry; the only save is the one at the end.
\<close>

theorem batch_save_skipped:
  "length (files lateGroup) = 900
   \<and> processed (lateRun stat) = 900
   \<and> cacheFile (lateRun stat) = Some staleCache
   \<and> filter isSave (events (lateRun stat)) = []
   \<and> length (filter isStat (events (lateRun stat))) = 899
   \<and> events (getFilesInfo True stat (Some staleCache) [lateGroup])
       = events (lateRun stat) @ [Save (fileInfo (lateRun stat))]"
proof -
  define A where "A = freshFiles 1 500"
  define x where "x = mkFile 0 ''files/x'' 1"
  define B where "B = freshFiles 500 900"
  define s0 :: "unit resolver_state" where
    "s0 = \<lparr>fileInfo = loadCache True (Some staleCache), processed = 0, events = [],
            cacheFile = Some staleCache\<rparr>"
  define s1 where "s1 = resolveFiles True stat A s0"
  define s2 where "s2 = resolveFile True stat x s1"
  define s3 where "s3 = resolveFiles True stat B s2"
  have grp: "lateGroup = mkGroup (A @ [x] @ B)"
    by (simp add: lateGroup_def A_def x_def B_def)
  have run: "lateRun stat = s3"
    by (simp add: lateRun_def grp resolveGroups_def resolveFiles_def mkGroup_def
          s0_def s1_def s2_def s3_def)
  have k0: "fst ` set (fileInfo s0) = {''files/x''}"
    by (simp add: s0_def staleCache_def loadCache_def)
  have lenA: "length A = 499" by (simp add: A_def length_freshFiles)
  have lenB: "length B = 400" by (simp add: B_def length_freshFiles)
  have dA: "distinct (map filepath A)" unfolding A_def by (rule freshFiles_distinct)
  have dB: "distinct (map filepath B)" unfolding B_def by (rule freshFiles_distinct)
  have "\<forall>f\<in>set A. \<not> hasKey (fileInfo s0) (filepath f)
      \<and> \<not> startsWith (filepath f) ''files_trashbin''"
    using freshFiles_new[of _ 1 500] by (auto simp: hasKey_iff k0 A_def)
  from resolveFiles_quiet[OF dA this, of True stat]
  have s1: "processed s1 = 499" "cacheFile s1 = Some staleCache"
    "filter isSave (events s1) = []" "length (events s1) = 499"
    by (simp_all add: s1_def lenA) (simp_all add: s0_def)
  have k1: "fst ` set (fileInfo s1) = filepath ` set A \<union> {''files/x''}"
    by (simp add: s1_def resolveFiles_keys k0)
  have "hasKey (fileInfo s1) (filepath x)"
    by (simp add: hasKey_iff k1 x_def mkFile_def)
  then have s2: "s2 = s1\<lparr>processed := Suc (processed s1)\<rparr>"
    unfolding s2_def by (rule resolveFile_cached)
  have "\<forall>f\<in>set B. filepath f \<notin> filepath ` set A"
    unfolding A_def B_def using freshFiles_disjoint[of 500 500 _ 900 1] by blast
  moreover have "\<forall>f\<in>set B. filepath f \<noteq> ''files/x''
      \<and> \<not> startsWith (filepath f) ''files_trashbin''"
    unfolding B_def using freshFiles_new[of _ 500 900] by blast
  ultimately have "\<forall>f\<in>set B. \<not> hasKey (fileInfo s2) (filepath f)
      \<and> \<not> startsWith (filepath f) ''files_trashbin''"
    by (simp add: s2 hasKey_iff k1)
  moreover have "processed s2 mod 500 + length B < 500"
    by (simp add: s2 s1 lenB)
  ultimately have "processed s3 = processed s2 + length B \<and> cacheFile s3 = cacheFile s2
    \<and> filter isSave (events s3) = filter isSave (events s2)
    \<and> length (events s3) = length (events s2) + length B"
    using resolveFiles_quiet[OF dB, of s2 True stat] by (simp add: s3_def)
  then have s3: "processed s3 = 900" "cacheFile s3 = Some staleCache"
    "filter isSave (events s3) = []" "length (events s3) = 899"
    by (simp_all add: s2 s1 lenB)
  have stats: "length (filter isStat (events s3)) = 899"
    using no_save_all_stat[OF s3(3)] s3(4) by simp
  have len: "length (files lateGroup) = 900"
    by (simp add: grp mkGroup_def lenA lenB)
  have fin: "events (getFilesInfo True stat (Some staleCache) [lateGroup])
       = events (lateRun stat) @ [Save (fileInfo (lateRun stat))]"
    by (simp add: getFilesInfo_def lateRun_def saveCacheData_def Let_def)
  from len s3 stats fin show ?thesis
    unfolding run by simp
qed

end
